theory Spec2Isabelle
  imports Complex_Main
begin

section \<open>Strings\<close>

text \<open>
  The handler of \<^verbatim>\<open>/api/calculate-ats\<close> in \<^verbatim>\<open>server.js\<close> works on JavaScript
  strings, which are sequences of UTF-16 code units. A code unit is a natural number
  (below 65536 in the program), and \<open>js s\<close> is the string of the ASCII literal \<open>s\<close>.
\<close>

type_synonym code_unit = nat

type_synonym js_string = "code_unit list"

definition js :: "string \<Rightarrow> js_string" where
  "js s = map of_char s"

text \<open>
  \<^verbatim>\<open>s.trim()\<close> removes the white space and the line terminators of ECMAScript from both
  ends: tab, line feed, vertical tab, form feed, carriage return, space, no-break space,
  U+1680, U+2000 to U+200A, U+2028, U+2029, U+202F, U+205F, U+3000 and U+FEFF.
\<close>

definition is_white_space :: "code_unit \<Rightarrow> bool" where
  "is_white_space c =
     (c \<in> {0x09, 0x0A, 0x0B, 0x0C, 0x0D, 0x20, 0xA0, 0x1680, 0x2028, 0x2029, 0x202F, 0x205F,
            0x3000, 0xFEFF}
      \<or> (0x2000 \<le> c \<and> c \<le> 0x200A))"

definition trim :: "js_string \<Rightarrow> js_string" where
  "trim s = rev (dropWhile is_white_space (rev (dropWhile is_white_space s)))"

text \<open>
  \<^verbatim>\<open>s.toLowerCase()\<close> maps the letters \<^verbatim>\<open>A-Z\<close> to the code unit 32 above and leaves
  every other ASCII code unit as it is, whatever surrounds it. What it does to a code
  unit from 128 on is read from the Unicode tables of the runtime: the result can be
  several code units or none, and can depend on the code units before and after (the
  other half of a surrogate pair, the letters around a capital sigma). These tables are
  the parameter \<open>U\<close>, which gives the result for a code unit from 128 on between the
  code units before it and those after it; nothing is assumed of it.
\<close>

type_synonym casing = "js_string \<Rightarrow> code_unit \<Rightarrow> js_string \<Rightarrow> js_string"

definition ascii_lower :: "code_unit \<Rightarrow> code_unit" where
  "ascii_lower c = (if 65 \<le> c \<and> c \<le> 90 then c + 32 else c)"

definition lower_unit :: "casing \<Rightarrow> js_string \<Rightarrow> code_unit \<Rightarrow> js_string \<Rightarrow> js_string" where
  "lower_unit U before c after = (if c < 128 then [ascii_lower c] else U before c after)"

fun lower_from :: "casing \<Rightarrow> js_string \<Rightarrow> js_string \<Rightarrow> js_string" where
  "lower_from U before [] = []"
| "lower_from U before (c # after) =
     lower_unit U before c after @ lower_from U (before @ [c]) after"

definition toLowerCase :: "casing \<Rightarrow> js_string \<Rightarrow> js_string" where
  "toLowerCase U s = lower_from U [] s"

text \<open>\<^verbatim>\<open>s.split(c)\<close> for a separator of one code unit.\<close>

fun split_str :: "code_unit \<Rightarrow> js_string \<Rightarrow> js_string list" where
  "split_str c [] = [[]]"
| "split_str c (x # xs) =
     (if x = c then [] # split_str c xs
      else (case split_str c xs of [] \<Rightarrow> [[x]] | w # ws \<Rightarrow> (x # w) # ws))"

text \<open>\<^verbatim>\<open>ws.join(c)\<close>, which undoes the splitting.\<close>

fun join_str :: "code_unit \<Rightarrow> js_string list \<Rightarrow> js_string" where
  "join_str c [] = []"
| "join_str c [w] = w"
| "join_str c (w # v # ws) = w @ c # join_str c (v # ws)"

fun starts_with :: "js_string \<Rightarrow> js_string \<Rightarrow> bool" where
  "starts_with s [] = True"
| "starts_with [] (k # ks) = False"
| "starts_with (c # cs) (k # ks) = (c = k \<and> starts_with cs ks)"

text \<open>\<^verbatim>\<open>s.includes(k)\<close>: \<open>k\<close> occurs in \<open>s\<close> at some position.\<close>

fun includes_str :: "js_string \<Rightarrow> js_string \<Rightarrow> bool" where
  "includes_str [] k = (k = [])"
| "includes_str (c # cs) k = (starts_with (c # cs) k \<or> includes_str cs k)"

section \<open>Numbers\<close>

text \<open>
  \<^verbatim>\<open>matchCount\<close> and \<^verbatim>\<open>keywords.length\<close> are natural numbers; the quotient, the product
  with 100 and its rounding are binary64 operations. A finite number is the real it
  denotes. \<open>round53\<close> rounds a real to the nearest binary64 value, ties to the even
  significand, with the subnormal spacing \<open>2\<^sup>-\<^sup>1\<^sup>0\<^sup>7\<^sup>4\<close> below \<open>2\<^sup>-\<^sup>1\<^sup>0\<^sup>2\<^sup>2\<close>. The operands of the
  handler are never negative.
\<close>

datatype number = NaN | Infinity | Num real

fun bitlen :: "nat \<Rightarrow> nat" where
  "bitlen n = (if n = 0 then 0 else Suc (bitlen (n div 2)))"

declare bitlen.simps [simp del]

definition pow2 :: "int \<Rightarrow> real" where
  "pow2 e = (if 0 \<le> e then 2 ^ nat e else 1 / 2 ^ nat (- e))"

text \<open>The binary exponent of a positive real: \<open>2\<^sup>e \<le> x < 2\<^sup>e\<^sup>+\<^sup>1\<close>.\<close>

definition expo :: "real \<Rightarrow> int" where
  "expo x = (if 1 \<le> x then int (bitlen (nat \<lfloor>x\<rfloor>)) - 1
             else - int (bitlen (nat (\<lceil>1 / x\<rceil> - 1))))"

text \<open>The nearest integer, a tie going to the even one.\<close>

definition rne :: "real \<Rightarrow> int" where
  "rne x = (let f = \<lfloor>x\<rfloor>; d = x - of_int f
            in if d < 1 / 2 then f else if 1 / 2 < d then f + 1
               else if even f then f else f + 1)"

definition round53 :: "real \<Rightarrow> real" where
  "round53 x =
     (if x = 0 then 0
      else let t = max (expo \<bar>x\<bar> - 52) (- 1074)
           in of_int (rne (x / pow2 t)) * pow2 t)"

text \<open>A non-negative real as a number: halfway beyond the largest finite value, the
  result is \<^verbatim>\<open>Infinity\<close>.\<close>

definition to_double :: "real \<Rightarrow> number" where
  "to_double x = (if 2 ^ 1024 - 2 ^ 970 \<le> x then Infinity else Num (round53 x))"

text \<open>\<^verbatim>\<open>a / b\<close> for two counters.\<close>

definition js_div :: "nat \<Rightarrow> nat \<Rightarrow> number" where
  "js_div a b =
     (if b = 0 then (if a = 0 then NaN else Infinity)
      else to_double (real a / real b))"

text \<open>\<^verbatim>\<open>x * k\<close> for a non-negative number and a natural-number literal.\<close>

fun js_times :: "number \<Rightarrow> nat \<Rightarrow> number" where
  "js_times NaN k = NaN"
| "js_times Infinity k = (if k = 0 then NaN else Infinity)"
| "js_times (Num x) k = to_double (x * real k)"

text \<open>\<^verbatim>\<open>Math.round\<close>: the nearest integer, a tie going up.\<close>

fun math_round :: "number \<Rightarrow> number" where
  "math_round NaN = NaN"
| "math_round Infinity = Infinity"
| "math_round (Num x) = Num (of_int \<lfloor>x + 1 / 2\<rfloor>)"

section \<open>The handler of \<^verbatim>\<open>/api/calculate-ats\<close>\<close>

text \<open>Line 128: \<^verbatim>\<open>keywordsText.split(',').map(kw => kw.trim().toLowerCase())\<close>.\<close>

definition keywords_of :: "casing \<Rightarrow> js_string \<Rightarrow> js_string list" where
  "keywords_of U keywordsText =
     map (\<lambda>kw. toLowerCase U (trim kw)) (split_str (of_char (CHR '','')) keywordsText)"

text \<open>Lines 130 to 137: the \<^verbatim>\<open>forEach\<close> loop over the keywords with its counter.\<close>

definition count_matches :: "js_string \<Rightarrow> js_string list \<Rightarrow> nat" where
  "count_matches resumeTextLower keywords =
     foldl (\<lambda>matchCount keyword.
              if includes_str resumeTextLower keyword then matchCount + 1 else matchCount)
       0 keywords"

text \<open>Line 139: \<^verbatim>\<open>Math.round((matchCount / keywords.length) * 100)\<close>.\<close>

definition score_of :: "nat \<Rightarrow> nat \<Rightarrow> number" where
  "score_of matchCount len = math_round (js_times (js_div matchCount len) 100)"

text \<open>Lines 130 to 139, for a keyword list.\<close>

definition score_keywords :: "casing \<Rightarrow> js_string \<Rightarrow> js_string list \<Rightarrow> number" where
  "score_keywords U resumeText keywords =
     (let resumeTextLower = toLowerCase U resumeText;
          matchCount = count_matches resumeTextLower keywords
      in score_of matchCount (length keywords))"

text \<open>
  The formula of the specification, \<^verbatim>\<open>round(100 * matchCount / len(KeywordList))\<close>, over
  the reals, a tie going up as \<^verbatim>\<open>Math.round\<close> takes it.
\<close>

definition spec_score :: "nat \<Rightarrow> nat \<Rightarrow> int" where
  "spec_score matchCount len = \<lfloor>100 * real matchCount / real len + 1 / 2\<rfloor>"

definition ats_score :: "casing \<Rightarrow> js_string \<Rightarrow> js_string \<Rightarrow> number" where
  "ats_score U resumeText keywordsText =
     score_keywords U resumeText (keywords_of U keywordsText)"

text \<open>
  The request carries the uploaded file's buffer (\<^verbatim>\<open>req.file\<close>, a sequence of bytes,
  absent when nothing was uploaded) and \<^verbatim>\<open>req.body.jobDescription\<close>. The two collaborators, the PDF text
  extractor and the generation service, return a text or throw. The handler's effects
  are the calls it makes, in order.
\<close>

datatype exn = Exn string

record request =
  resume_file :: "string option"
  jobDescription :: "js_string option"

record services =
  pdf :: "string \<Rightarrow> exn + js_string"
  generateContent :: "js_string \<Rightarrow> exn + js_string"

datatype body = Message string | Score number

record response =
  status :: nat
  body :: body

datatype call = PdfParse string | GenerateContent js_string

definition indent :: "nat \<Rightarrow> string" where
  "indent n = replicate n (CHR '' '')"

definition keywordsPrompt :: "js_string \<Rightarrow> js_string" where
  "keywordsPrompt jd =
     js ([CHR 0x0A] @ indent 12
         @ ''From the following job description, extract the top 15 most important technical skills,''
         @ [CHR 0x0A] @ indent 12
         @ ''soft skills, and qualifications. Return them as a simple comma-separated list.''
         @ [CHR 0x0A] @ indent 12
         @ ''Do not add any extra explanation or formatting.''
         @ [CHR 0x0A, CHR 0x0A] @ indent 12
         @ ''Job Description: '' @ [CHR 0x22])
     @ jd
     @ js ([CHR 0x22, CHR 0x0A] @ indent 8)"

definition bad_request :: response where
  "bad_request =
     \<lparr>status = 400, body = Message ''Resume file and job description are required.''\<rparr>"

definition server_error :: response where
  "server_error =
     \<lparr>status = 500, body = Message ''An error occurred while calculating the ATS score.''\<rparr>"

text \<open>An absent job description and the empty string are both falsy.\<close>

definition calculate_ats :: "casing \<Rightarrow> services \<Rightarrow> request \<Rightarrow> response \<times> call list" where
  "calculate_ats U sv req =
     (case resume_file req of
        None \<Rightarrow> (bad_request, [])
      | Some resumeBuffer \<Rightarrow>
          (case jobDescription req of
             None \<Rightarrow> (bad_request, [])
           | Some jd \<Rightarrow>
               if jd = [] then (bad_request, [])
               else
                 (case pdf sv resumeBuffer of
                    Inl e \<Rightarrow> (server_error, [PdfParse resumeBuffer])
                  | Inr resumeText \<Rightarrow>
                      (case generateContent sv (keywordsPrompt jd) of
                         Inl e \<Rightarrow>
                           (server_error,
                            [PdfParse resumeBuffer, GenerateContent (keywordsPrompt jd)])
                       | Inr keywordsText \<Rightarrow>
                           (\<lparr>status = 200, body = Score (ats_score U resumeText keywordsText)\<rparr>,
                            [PdfParse resumeBuffer, GenerateContent (keywordsPrompt jd)])))))"

subsection \<open>Stubs for the two collaborators\<close>

text \<open>
  An extractor that returns a fixed text and a generation service that returns a fixed
  response, a request that carries both inputs, and tables that leave every code unit
  from 128 on as it is.
\<close>

definition stub_services :: "js_string \<Rightarrow> js_string \<Rightarrow> services" where
  "stub_services resumeText keywordsText =
     \<lparr>pdf = (\<lambda>buffer. Inr resumeText), generateContent = (\<lambda>prompt. Inr keywordsText)\<rparr>"

definition sample_request :: request where
  "sample_request =
     \<lparr>resume_file = Some ''%PDF-1.4'', jobDescription = Some (js ''Data engineer'')\<rparr>"

definition plain_casing :: casing where
  "plain_casing before c after = [c]"

section \<open>Splitting, trimming and matching\<close>

lemma split_str_not_Nil: "split_str c s \<noteq> []"
  by (induction s) (auto split: list.splits)

lemma length_split_str: "length (split_str c s) = Suc (length (filter (\<lambda>x. x = c) s))"
proof (induction s)
  case Nil
  show ?case by simp
next
  case (Cons x xs)
  have "split_str c xs \<noteq> []" by (rule split_str_not_Nil)
  with Cons show ?case by (auto split: list.splits)
qed

lemma join_str_Cons: "ws \<noteq> [] \<Longrightarrow> join_str c (w # ws) = w @ c # join_str c ws"
  by (cases ws) simp_all

lemma join_str_push: "join_str c ((x # w) # ws) = x # join_str c (w # ws)"
  by (cases ws) simp_all

lemma join_split_str: "join_str c (split_str c s) = s"
proof (induction s)
  case Nil
  show ?case by simp
next
  case (Cons x xs)
  have ne: "split_str c xs \<noteq> []" by (rule split_str_not_Nil)
  then obtain w ws where eq: "split_str c xs = w # ws" by (cases "split_str c xs") auto
  show ?case
  proof (cases "x = c")
    case True
    then show ?thesis using Cons ne by (simp add: join_str_Cons)
  next
    case False
    have "join_str c ((x # w) # ws) = x # join_str c (w # ws)"
      by (rule join_str_push)
    with False eq Cons show ?thesis by simp
  qed
qed

lemma split_str_no_separator: "w \<in> set (split_str c s) \<Longrightarrow> c \<notin> set w"
proof (induction s arbitrary: w)
  case Nil
  then show ?case by simp
next
  case (Cons x xs)
  obtain v vs where eq: "split_str c xs = v # vs"
    using split_str_not_Nil [of c xs] by (cases "split_str c xs") auto
  show ?case
  proof (cases "x = c")
    case True
    with Cons show ?thesis by auto
  next
    case False
    with Cons.prems eq have "w = x # v \<or> w \<in> set vs" by simp
    moreover have "c \<notin> set v" using Cons.IH [of v] eq by simp
    moreover have "w \<in> set vs \<Longrightarrow> c \<notin> set w" using Cons.IH [of w] eq by simp
    ultimately show ?thesis using False by auto
  qed
qed

lemma starts_with_iff: "starts_with s k \<longleftrightarrow> (\<exists>r. s = k @ r)"
  by (induction s k rule: starts_with.induct) auto

lemma includes_iff: "includes_str s k \<longleftrightarrow> (\<exists>p r. s = p @ k @ r)"
proof (induction s)
  case Nil
  show ?case by simp
next
  case (Cons c cs)
  show ?case
  proof
    assume "includes_str (c # cs) k"
    then consider "starts_with (c # cs) k" | "includes_str cs k" by auto
    then show "\<exists>p r. c # cs = p @ k @ r"
    proof cases
      case 1
      then obtain r where "c # cs = k @ r" using starts_with_iff by blast
      then have "c # cs = [] @ k @ r" by simp
      then show ?thesis by blast
    next
      case 2
      then obtain p r where "cs = p @ k @ r" using Cons.IH by blast
      then have "c # cs = (c # p) @ k @ r" by simp
      then show ?thesis by blast
    qed
  next
    assume "\<exists>p r. c # cs = p @ k @ r"
    then obtain p r where eq: "c # cs = p @ k @ r" by blast
    show "includes_str (c # cs) k"
    proof (cases p)
      case Nil
      with eq have "starts_with (c # cs) k" using starts_with_iff by auto
      then show ?thesis by simp
    next
      case (Cons a p')
      with eq have "cs = p' @ k @ r" by simp
      then have "includes_str cs k" using Cons.IH by blast
      then show ?thesis by simp
    qed
  qed
qed

lemma includes_empty: "includes_str s []"
proof -
  have "s = [] @ [] @ s" by simp
  then show ?thesis unfolding includes_iff by blast
qed

lemma includes_middle: "includes_str (p @ k @ r) k"
  using includes_iff by blast

lemma count_matches_foldl:
  "foldl (\<lambda>matchCount keyword. if includes_str t keyword then matchCount + 1 else matchCount) a ks
     = a + length (filter (includes_str t) ks)"
  by (induction ks arbitrary: a) auto

lemma count_matches_filter: "count_matches t ks = length (filter (includes_str t) ks)"
  by (simp add: count_matches_def count_matches_foldl)

lemma count_matches_le: "count_matches t ks \<le> length ks"
  by (simp add: count_matches_filter)

lemma lower_from_ascii:
  "list_all (\<lambda>c. c < 128) w \<Longrightarrow> lower_from U b (w @ r) = map ascii_lower w @ lower_from U (b @ w) r"
  by (induction w arbitrary: b) (simp_all add: lower_unit_def)

lemma toLowerCase_ascii: "list_all (\<lambda>c. c < 128) w \<Longrightarrow> toLowerCase U w = map ascii_lower w"
  using lower_from_ascii [of w U "[]" "[]"] by (simp add: toLowerCase_def)

lemma lower_from_ascii_segment:
  assumes "list_all (\<lambda>c. c < 128) w"
  shows "\<exists>P R. lower_from U b (p @ w @ r) = P @ map ascii_lower w @ R"
proof (induction p arbitrary: b)
  case Nil
  show ?case using lower_from_ascii [OF assms, of U b r] by auto
next
  case (Cons c p)
  obtain P R where "lower_from U (b @ [c]) (p @ w @ r) = P @ map ascii_lower w @ R"
    using Cons [of "b @ [c]"] by blast
  then have "lower_from U b ((c # p) @ w @ r)
               = (lower_unit U b c (p @ w @ r) @ P) @ map ascii_lower w @ R"
    by simp
  then show ?case by blast
qed

lemma toLowerCase_includes_ascii:
  assumes "list_all (\<lambda>c. c < 128) w"
  shows "includes_str (toLowerCase U (p @ w @ r)) (map ascii_lower w)"
proof -
  obtain P R where "toLowerCase U (p @ w @ r) = P @ map ascii_lower w @ R"
    using lower_from_ascii_segment [OF assms, of U "[]" p r] by (auto simp add: toLowerCase_def)
  then show ?thesis by (simp only: includes_middle)
qed

lemma keywords_of_not_Nil: "keywords_of U s \<noteq> []"
  by (simp add: keywords_of_def split_str_not_Nil)

lemma calculate_ats_ok:
  assumes "resume_file req = Some buf" and "jobDescription req = Some jd" and "jd \<noteq> []"
    and "pdf sv buf = Inr resumeText"
    and "generateContent sv (keywordsPrompt jd) = Inr keywordsText"
  shows "calculate_ats U sv req =
           (\<lparr>status = 200, body = Score (ats_score U resumeText keywordsText)\<rparr>,
            [PdfParse buf, GenerateContent (keywordsPrompt jd)])"
  using assms by (simp add: calculate_ats_def)

section \<open>Binary exponents and rounding to the nearest integer\<close>

lemma bitlen_upper: "n < 2 ^ bitlen n"
proof (induction n rule: bitlen.induct)
  case (1 n)
  show ?case
  proof (cases "n = 0")
    case True
    then show ?thesis by (simp add: bitlen.simps)
  next
    case False
    with 1 have "n div 2 < 2 ^ bitlen (n div 2)" by simp
    then have "n < 2 * 2 ^ bitlen (n div 2)" by linarith
    with False show ?thesis by (simp add: bitlen.simps [of n])
  qed
qed

lemma bitlen_pos: "0 < n \<Longrightarrow> 0 < bitlen n"
  by (simp add: bitlen.simps [of n])

lemma bitlen_lower: "0 < n \<Longrightarrow> 2 ^ (bitlen n - 1) \<le> n"
proof (induction n rule: bitlen.induct)
  case (1 n)
  then have n: "n \<noteq> 0" by simp
  show ?case
  proof (cases "n div 2 = 0")
    case True
    with n show ?thesis by (simp add: bitlen.simps [of n] bitlen.simps [of 0])
  next
    case False
    then have pos: "0 < n div 2" by simp
    with 1 n have ih: "2 ^ (bitlen (n div 2) - 1) \<le> n div 2" by simp
    from pos have "0 < bitlen (n div 2)" by (rule bitlen_pos)
    then have "(2::nat) ^ bitlen (n div 2) = 2 * 2 ^ (bitlen (n div 2) - 1)"
      by (cases "bitlen (n div 2)") simp_all
    with ih have "(2::nat) ^ bitlen (n div 2) \<le> n" by linarith
    with n show ?thesis by (simp add: bitlen.simps [of n])
  qed
qed

lemma pow2_powi: "pow2 e = 2 powi e"
proof (cases "0 \<le> e")
  case True
  then show ?thesis by (simp add: pow2_def power_int_def)
next
  case False
  then have "pow2 e = 1 / 2 ^ nat (- e)" by (simp add: pow2_def)
  also have "\<dots> = inverse 2 ^ nat (- e)" by (simp only: power_one_over [symmetric] inverse_eq_divide)
  also have "\<dots> = 2 powi e" using False by (simp only: power_int_def if_False)
  finally show ?thesis .
qed

lemma pow2_pos: "0 < pow2 e"
  by (simp add: pow2_powi)

lemma pow2_add: "pow2 (a + b) = pow2 a * pow2 b"
  by (simp add: pow2_powi power_int_add)

lemma pow2_mono: "a \<le> b \<Longrightarrow> pow2 a \<le> pow2 b"
  by (simp add: pow2_powi power_int_increasing)

lemma pow2_less_cancel: "pow2 a < pow2 b \<Longrightarrow> a < b"
  using pow2_mono [of b a] by (cases "a < b") auto

lemma pow2_nat: "pow2 (int k) = 2 ^ k"
  by (simp add: pow2_def)

lemma pow2_neg_nat: "pow2 (- int k) = 1 / 2 ^ k"
proof (cases k)
  case 0
  then show ?thesis by (simp add: pow2_def)
next
  case (Suc j)
  then have "\<not> 0 \<le> - int k" by simp
  then have "pow2 (- int k) = 1 / 2 ^ nat (- (- int k))" by (simp only: pow2_def if_False)
  then show ?thesis by simp
qed

lemma expo_lower: assumes "0 < x" shows "pow2 (expo x) \<le> x"
proof (cases "1 \<le> x")
  case True
  define N where "N = nat \<lfloor>x\<rfloor>"
  from True have N: "0 < N" "real N \<le> x" by (simp_all add: N_def)
  then have "0 < bitlen N" by (simp add: bitlen_pos)
  then have "expo x = int (bitlen N - 1)" using True by (simp add: expo_def N_def)
  then have "pow2 (expo x) = 2 ^ (bitlen N - 1)" by (simp add: pow2_nat)
  also have "\<dots> \<le> real N" using bitlen_lower [OF N(1)]
    by (metis of_nat_le_iff of_nat_numeral of_nat_power)
  finally show ?thesis using N(2) by simp
next
  case False
  define k where "k = nat (\<lceil>1 / x\<rceil> - 1)"
  have "1 / x \<le> of_int \<lceil>1 / x\<rceil>" by simp
  moreover have "1 < 1 / x" using False assms by simp
  ultimately have c: "2 \<le> \<lceil>1 / x\<rceil>" by linarith
  then have "0 \<le> \<lceil>1 / x\<rceil> - 1" by linarith
  then have "int k = \<lceil>1 / x\<rceil> - 1" unfolding k_def by (rule nat_0_le)
  then have "int k + 1 = \<lceil>1 / x\<rceil>" by linarith
  then have "1 / x \<le> real k + 1"
    by (metis of_int_1 of_int_add of_int_of_nat_eq le_of_int_ceiling)
  also have "real k + 1 \<le> 2 ^ bitlen k" using bitlen_upper [of k]
    by (metis Suc_leI of_nat_Suc of_nat_le_iff of_nat_numeral of_nat_power add.commute)
  finally have "1 / x \<le> 2 ^ bitlen k" .
  then have "1 / 2 ^ bitlen k \<le> x" using assms
    by (simp add: field_simps)
  moreover have "expo x = - int (bitlen k)" using False by (simp add: expo_def k_def)
  ultimately show ?thesis by (simp add: pow2_neg_nat)
qed

lemma expo_upper: assumes "0 < x" shows "x < pow2 (expo x + 1)"
proof (cases "1 \<le> x")
  case True
  define N where "N = nat \<lfloor>x\<rfloor>"
  from True have "0 \<le> \<lfloor>x\<rfloor>" by simp
  then have "real N = of_int \<lfloor>x\<rfloor>" unfolding N_def by simp
  moreover have "x < of_int \<lfloor>x\<rfloor> + 1" by linarith
  moreover have "0 < N" using True by (simp add: N_def)
  ultimately have N: "0 < N" "x < real N + 1" by simp_all
  then have "0 < bitlen N" by (simp add: bitlen_pos)
  then have "expo x + 1 = int (bitlen N)" using True by (simp add: expo_def N_def)
  then have "pow2 (expo x + 1) = 2 ^ bitlen N" by (simp add: pow2_nat)
  moreover have "real N + 1 \<le> 2 ^ bitlen N" using bitlen_upper [of N]
    by (metis Suc_leI of_nat_Suc of_nat_le_iff of_nat_numeral of_nat_power add.commute)
  ultimately show ?thesis using N(2) by simp
next
  case False
  define k where "k = nat (\<lceil>1 / x\<rceil> - 1)"
  have "1 / x \<le> of_int \<lceil>1 / x\<rceil>" by simp
  moreover have "1 < 1 / x" using False assms by simp
  ultimately have c: "2 \<le> \<lceil>1 / x\<rceil>" by linarith
  then have "0 \<le> \<lceil>1 / x\<rceil> - 1" by linarith
  then have "int k = \<lceil>1 / x\<rceil> - 1" unfolding k_def by (rule nat_0_le)
  with c have k: "0 < k" "int k = \<lceil>1 / x\<rceil> - 1" by linarith+
  have "of_int \<lceil>1 / x\<rceil> - 1 < 1 / x" by linarith
  then have kx: "real k < 1 / x" using k(2)
    by (metis of_int_1 of_int_diff of_int_of_nat_eq)
  have "2 ^ (bitlen k - 1) \<le> real k" using bitlen_lower [OF k(1)]
    by (metis of_nat_le_iff of_nat_numeral of_nat_power)
  with kx have "2 ^ (bitlen k - 1) < 1 / x" by linarith
  then have lt: "x < 1 / 2 ^ (bitlen k - 1)" using assms by (simp add: field_simps)
  from k(1) have "0 < bitlen k" by (rule bitlen_pos)
  moreover have "expo x = - int (bitlen k)" using False by (simp add: expo_def k_def)
  ultimately have "expo x + 1 = - int (bitlen k - 1)" by simp
  then have "pow2 (expo x + 1) = 1 / 2 ^ (bitlen k - 1)" by (simp only: pow2_neg_nat)
  with lt show ?thesis by simp
qed

lemma expo_ge: assumes "pow2 k \<le> x" shows "k \<le> expo x"
proof -
  have "0 < x" using assms pow2_pos [of k] by linarith
  then have "x < pow2 (expo x + 1)" by (rule expo_upper)
  with assms have "pow2 k < pow2 (expo x + 1)" by linarith
  then have "k < expo x + 1" by (rule pow2_less_cancel)
  then show ?thesis by simp
qed

lemma rne_error: "\<bar>of_int (rne x) - x\<bar> \<le> 1 / 2"
  unfolding rne_def Let_def by (simp; linarith)

lemma rne_nonneg: "0 \<le> x \<Longrightarrow> 0 \<le> rne x"
  unfolding rne_def Let_def by (auto; linarith)

section \<open>The error of one rounding\<close>

lemma round53_error_ulp:
  assumes "0 < x"
  shows "\<bar>round53 x - x\<bar> \<le> pow2 (max (expo x - 52) (- 1074)) / 2"
proof -
  define t where "t = max (expo x - 52) (- 1074)"
  define y where "y = x / pow2 t"
  have p: "0 < pow2 t" by (rule pow2_pos)
  have r: "round53 x = of_int (rne y) * pow2 t"
    using assms by (simp add: round53_def Let_def t_def y_def)
  have "x = y * pow2 t" using p by (simp add: y_def)
  with r have "round53 x - x = (of_int (rne y) - y) * pow2 t" by (simp add: algebra_simps)
  then have "\<bar>round53 x - x\<bar> = \<bar>of_int (rne y) - y\<bar> * pow2 t"
    using p by (simp add: abs_mult)
  also have "\<dots> \<le> (1 / 2) * pow2 t"
    using rne_error [of y] p by (intro mult_right_mono) simp_all
  finally show ?thesis by (simp add: t_def)
qed

lemma ulp_normal:
  assumes "- 1022 \<le> expo x" and "0 < x"
  shows "pow2 (max (expo x - 52) (- 1074)) \<le> x / 2 ^ 52"
proof -
  from assms(1) have "max (expo x - 52) (- 1074) = expo x + (- 52)" by simp
  then have "pow2 (max (expo x - 52) (- 1074)) = pow2 (expo x) * pow2 (- 52)"
    by (simp only: pow2_add)
  also have "pow2 (- 52) = 1 / 2 ^ 52" by (simp add: pow2_def)
  also have "pow2 (expo x) * (1 / 2 ^ 52) \<le> x * (1 / 2 ^ 52)"
    using expo_lower [OF assms(2)] by (intro mult_right_mono) simp_all
  finally show ?thesis by simp
qed

lemma round53_error_normal:
  assumes "pow2 (- 1022) \<le> x"
  shows "\<bar>round53 x - x\<bar> \<le> x / 2 ^ 53"
proof -
  have pos: "0 < x" using assms pow2_pos [of "- 1022"] by linarith
  have "- 1022 \<le> expo x" using assms by (rule expo_ge)
  then have "pow2 (max (expo x - 52) (- 1074)) \<le> x / 2 ^ 52" using pos by (rule ulp_normal)
  with round53_error_ulp [OF pos] show ?thesis by simp
qed

lemma round53_error_any:
  assumes "0 \<le> x"
  shows "\<bar>round53 x - x\<bar> \<le> x / 2 ^ 53 + pow2 (- 1074) / 2"
proof (cases "x = 0")
  case True
  then show ?thesis using pow2_pos [of "- 1074"] by (simp add: round53_def)
next
  case False
  with assms have pos: "0 < x" by simp
  have "pow2 (max (expo x - 52) (- 1074)) \<le> x / 2 ^ 52 + pow2 (- 1074)"
  proof (cases "- 1022 \<le> expo x")
    case True
    then have "pow2 (max (expo x - 52) (- 1074)) \<le> x / 2 ^ 52" using pos by (rule ulp_normal)
    then show ?thesis using pow2_pos [of "- 1074"] by linarith
  next
    case False
    then have "max (expo x - 52) (- 1074) = - 1074" by simp
    then show ?thesis using pos by simp
  qed
  with round53_error_ulp [OF pos] show ?thesis by simp
qed

lemma round53_nonneg: assumes "0 \<le> x" shows "0 \<le> round53 x"
proof (cases "x = 0")
  case True
  then show ?thesis by (simp add: round53_def)
next
  case False
  define t where "t = max (expo \<bar>x\<bar> - 52) (- 1074)"
  have "0 \<le> x / pow2 t" using assms pow2_pos [of t] by simp
  then have "0 \<le> rne (x / pow2 t)" by (rule rne_nonneg)
  then have "0 \<le> real_of_int (rne (x / pow2 t)) * pow2 t" using pow2_pos [of t] by simp
  then show ?thesis using False by (simp add: round53_def Let_def t_def)
qed

lemma pow2_tiny: "pow2 (- 1074) / 2 \<le> 1 / 2 ^ 53"
proof -
  have "pow2 (- 1074) \<le> pow2 (- 52)" by (rule pow2_mono) simp
  also have "pow2 (- 52) = 1 / 2 ^ 52" by (simp add: pow2_def)
  finally show ?thesis by simp
qed

lemma round53_upper:
  assumes "0 \<le> x"
  shows "round53 x \<le> x + (x + 1) / 2 ^ 53"
proof -
  have "round53 x - x \<le> x / 2 ^ 53 + pow2 (- 1074) / 2"
    using round53_error_any [OF assms] by linarith
  with pow2_tiny show ?thesis by (simp add: add_divide_distrib)
qed

section \<open>The score is a number between 0 and 100\<close>

lemma finite_range: "x \<le> 1000 \<Longrightarrow> \<not> 2 ^ 1024 - 2 ^ 970 \<le> (x::real)"
proof -
  have "(1000::real) < 2 ^ 1024 - 2 ^ 970" by simp
  then show "x \<le> 1000 \<Longrightarrow> \<not> 2 ^ 1024 - 2 ^ 970 \<le> x" by linarith
qed

lemma quotient_unit:
  assumes "0 < n" and "m \<le> n"
  shows "0 \<le> real m / real n" and "real m / real n \<le> 1"
  using assms by simp_all

lemma round53_quotient:
  assumes "0 < n" and "m \<le> n"
  shows "0 \<le> round53 (real m / real n)" and "round53 (real m / real n) \<le> 1 + 2 / 2 ^ 53"
proof -
  define x where "x = real m / real n"
  have x: "0 \<le> x" "x \<le> 1" using quotient_unit [OF assms] by (simp_all add: x_def)
  have "0 \<le> round53 x" using x(1) by (rule round53_nonneg)
  then show "0 \<le> round53 (real m / real n)" by (simp only: x_def)
  have "x + 1 \<le> 2" using x(2) by linarith
  then have "(x + 1) / 2 ^ 53 \<le> 2 / 2 ^ 53" by (rule divide_right_mono) simp
  with round53_upper [OF x(1)] x(2) have "round53 x \<le> 1 + 2 / 2 ^ 53" by linarith
  then show "round53 (real m / real n) \<le> 1 + 2 / 2 ^ 53" by (simp only: x_def)
qed

lemma score_of_Num:
  assumes "0 < n" and "m \<le> n"
  shows "score_of m n = Num (of_int \<lfloor>round53 (round53 (real m / real n) * 100) + 1 / 2\<rfloor>)"
proof -
  note x = quotient_unit [OF assms]
  note q = round53_quotient [OF assms]
  have "\<not> 2 ^ 1024 - 2 ^ 970 \<le> real m / real n" using x(2) by (intro finite_range) simp
  then have d: "js_div m n = Num (round53 (real m / real n))"
    using assms(1) by (simp add: js_div_def to_double_def)
  have "round53 (real m / real n) * 100 \<le> 1000" using q(2) by simp
  then have "\<not> 2 ^ 1024 - 2 ^ 970 \<le> round53 (real m / real n) * 100" by (rule finite_range)
  then have "js_times (Num (round53 (real m / real n))) 100
               = Num (round53 (round53 (real m / real n) * 100))"
    by (simp add: to_double_def)
  with d show ?thesis by (simp add: score_of_def)
qed

lemma product_Num:
  assumes "0 < n" and "m \<le> n"
  shows "js_times (js_div m n) 100 = Num (round53 (round53 (real m / real n) * 100))"
proof -
  note x = quotient_unit [OF assms]
  note q = round53_quotient [OF assms]
  have "\<not> 2 ^ 1024 - 2 ^ 970 \<le> real m / real n" using x(2) by (intro finite_range) simp
  then have d: "js_div m n = Num (round53 (real m / real n))"
    using assms(1) by (simp add: js_div_def to_double_def)
  have "round53 (real m / real n) * 100 \<le> 1000" using q(2) by simp
  then have "\<not> 2 ^ 1024 - 2 ^ 970 \<le> round53 (real m / real n) * 100" by (rule finite_range)
  then have "js_times (Num (round53 (real m / real n))) 100
               = Num (round53 (round53 (real m / real n) * 100))"
    by (simp add: to_double_def)
  with d show ?thesis by simp
qed

lemma product_bounds:
  assumes "0 < n" and "m \<le> n"
  shows "0 \<le> round53 (round53 (real m / real n) * 100)"
    and "round53 (round53 (real m / real n) * 100) < 100 + 1 / 2"
proof -
  note q = round53_quotient [OF assms]
  define y where "y = round53 (real m / real n) * 100"
  have y: "0 \<le> y" "y \<le> 100 + 200 / 2 ^ 53" using q by (simp_all add: y_def)
  show "0 \<le> round53 (round53 (real m / real n) * 100)"
    using y(1) unfolding y_def by (rule round53_nonneg)
  have "y + 1 \<le> 102" using y(2) by simp
  then have "(y + 1) / 2 ^ 53 \<le> 102 / 2 ^ 53" by (simp add: divide_right_mono)
  with round53_upper [OF y(1)] y(2) have "round53 y \<le> 100 + 302 / 2 ^ 53" by linarith
  also have "\<dots> < 100 + 1 / 2" by simp
  finally show "round53 (round53 (real m / real n) * 100) < 100 + 1 / 2" by (simp add: y_def)
qed

lemma score_of_range:
  assumes "0 < n" and "m \<le> n"
  shows "\<exists>s. score_of m n = Num (of_int s) \<and> 0 \<le> s \<and> s \<le> 100"
proof -
  define v where "v = round53 (round53 (real m / real n) * 100)"
  have v: "0 \<le> v" "v < 100 + 1 / 2" using product_bounds [OF assms] by (simp_all add: v_def)
  have "0 \<le> \<lfloor>v + 1 / 2\<rfloor>" using v(1) by simp
  moreover have "\<lfloor>v + 1 / 2\<rfloor> \<le> 100" using v(2) by (simp add: floor_le_iff)
  moreover have "score_of m n = Num (of_int \<lfloor>v + 1 / 2\<rfloor>)"
    using score_of_Num [OF assms] by (simp add: v_def)
  ultimately show ?thesis by blast
qed

lemma product_close:
  assumes "0 < m" and "m \<le> n" and "n < 2 ^ 32"
  shows "\<bar>round53 (round53 (real m / real n) * 100) - 100 * real m / real n\<bar> \<le> 201 / 2 ^ 53"
proof -
  define x where "x = real m / real n"
  define q where "q = round53 x"
  define y where "y = q * 100"
  define u :: real where "u = 1 / 2 ^ 53"
  define lo :: real where "lo = 1 / 2 ^ 32"
  define lo' :: real where "lo' = 1 / 2 ^ 33"
  have u: "0 < u" "lo' + u \<le> lo" "100 * u \<le> 1" "0 < lo'" by (simp_all add: u_def lo_def lo'_def)
  have n: "0 < n" using assms by simp
  have x1: "x \<le> 1" using assms by (simp add: x_def)
  have "real n \<le> 2 ^ 32" using assms(3)
    by (metis less_imp_le of_nat_le_iff of_nat_numeral of_nat_power)
  moreover have "1 \<le> real m" using assms(1) by simp
  ultimately have "1 / 2 ^ 32 \<le> 1 / real n" and "1 / real n \<le> real m / real n"
    using n by (intro frac_le divide_right_mono; simp)+
  then have xlow: "lo \<le> x" unfolding x_def lo_def by (rule order_trans)
  have p32: "pow2 (- 32) = lo" by (simp add: pow2_def lo_def)
  have p33: "pow2 (- 33) = lo'" by (simp add: pow2_def lo'_def)
  have "pow2 (- 1022) \<le> pow2 (- 32)" by (rule pow2_mono) simp
  with xlow p32 have "pow2 (- 1022) \<le> x" by linarith
  then have "\<bar>q - x\<bar> \<le> x / 2 ^ 53" unfolding q_def by (rule round53_error_normal)
  moreover have "x / 2 ^ 53 \<le> u" unfolding u_def using x1 by (intro divide_right_mono) simp_all
  ultimately have qx: "x - u \<le> q" "q \<le> x + u" by linarith+
  have ylow: "lo' \<le> y" using qx(1) xlow u unfolding y_def by linarith
  have "pow2 (- 1022) \<le> pow2 (- 33)" by (rule pow2_mono) simp
  with ylow p33 have "pow2 (- 1022) \<le> y" by linarith
  then have vy: "\<bar>round53 y - y\<bar> \<le> y / 2 ^ 53" by (rule round53_error_normal)
  have y101: "y \<le> 101" using qx(2) x1 u unfolding y_def by linarith
  have "y / 2 ^ 53 \<le> 101 / 2 ^ 53" using y101 by (intro divide_right_mono) simp_all
  also have "\<dots> = 101 * u" by (simp add: u_def)
  finally have "y / 2 ^ 53 \<le> 101 * u" .
  with vy have vy': "\<bar>round53 y - y\<bar> \<le> 101 * u" by linarith
  have "\<bar>y - 100 * x\<bar> \<le> 100 * u" using qx unfolding y_def by linarith
  with vy' have "\<bar>round53 y - 100 * x\<bar> \<le> 201 * u" by linarith
  moreover have "201 * u = 201 / 2 ^ 53" by (simp add: u_def)
  ultimately show ?thesis by (simp add: y_def q_def x_def)
qed

section \<open>The score is a nearest integer of the percentage\<close>

lemma product_close_any:
  assumes "0 < n" and "m \<le> n" and "n < 2 ^ 32"
  shows "\<bar>round53 (round53 (real m / real n) * 100) - 100 * real m / real n\<bar> \<le> 201 / 2 ^ 53"
proof (cases "m = 0")
  case True
  then show ?thesis by (simp add: round53_def)
next
  case False
  then have "0 < m" by simp
  then show ?thesis using assms(2,3) by (rule product_close)
qed

lemma half_integer_gap:
  fixes w :: real and n :: nat and D :: int
  assumes n: "0 < n" "n < 2 ^ 32"
    and w: "- (201 / 2 ^ 53) \<le> w"
    and D: "real_of_int D = 2 * real n * w"
  shows "0 \<le> w"
proof -
  have rn: "0 < real n" "real n < 2 ^ 32" using n
    by (simp, metis of_nat_less_iff of_nat_numeral of_nat_power)
  have "2 * real n * (- (201 / 2 ^ 53)) \<le> 2 * real n * w"
    using w rn(1) by (intro mult_left_mono) simp_all
  moreover have "- 1 < 2 * real n * (- (201 / 2 ^ 53))" using rn(2) by simp
  ultimately have "- 1 < real_of_int D" using D by linarith
  then have "- 1 < D" by linarith
  then have "0 \<le> real_of_int D" by simp
  with D have "0 \<le> 2 * real n * w" by simp
  with rn(1) show ?thesis by (simp add: zero_le_mult_iff)
qed

lemma score_of_nearest:
  assumes "0 < n" and "m \<le> n" and "n < 2 ^ 32"
  shows "\<exists>s. score_of m n = Num (of_int s)
           \<and> \<bar>of_int s - 100 * real m / real n\<bar> \<le> 1 / 2
           \<and> (frac (100 * real m / real n) \<noteq> 1 / 2 \<longrightarrow> s = spec_score m n)"
proof -
  define v where "v = round53 (round53 (real m / real n) * 100)"
  define X where "X = 100 * real m / real n"
  define s where "s = \<lfloor>v + 1 / 2\<rfloor>"
  have close: "\<bar>v - X\<bar> \<le> 201 / 2 ^ 53"
    unfolding v_def X_def using assms by (rule product_close_any)
  have fl: "of_int s \<le> v + 1 / 2" "v + 1 / 2 < of_int s + 1"
    unfolding s_def by linarith+
  have Xn: "X * real n = 100 * real m" using assms(1) by (simp add: X_def)
  have lowD: "real_of_int (200 * int m - (2 * s - 1) * int n)
                = 2 * real n * (X - of_int s + 1 / 2)"
    using Xn by (simp add: algebra_simps)
  have "- (201 / 2 ^ 53) \<le> X - of_int s + 1 / 2" using close fl(1) by linarith
  with assms(1,3) have low: "0 \<le> X - of_int s + 1 / 2" using lowD by (rule half_integer_gap)
  have upD: "real_of_int ((2 * s + 1) * int n - 200 * int m)
               = 2 * real n * (of_int s + 1 / 2 - X)"
    using Xn by (simp add: algebra_simps)
  have "- (201 / 2 ^ 53) \<le> of_int s + 1 / 2 - X" using close fl(2) by linarith
  with assms(1,3) have up: "0 \<le> of_int s + 1 / 2 - X" using upD by (rule half_integer_gap)
  have near: "\<bar>of_int s - X\<bar> \<le> 1 / 2" using low up by linarith
  have tie: "s = \<lfloor>X + 1 / 2\<rfloor>" if "frac X \<noteq> 1 / 2"
  proof -
    have "X \<noteq> of_int s + 1 / 2"
    proof
      assume eq: "X = of_int s + 1 / 2"
      then have "\<lfloor>X\<rfloor> = s" by (intro floor_unique) simp_all
      with eq have "frac X = 1 / 2" by (simp add: frac_def)
      with that show False by simp
    qed
    with up have "X + 1 / 2 < of_int s + 1" by linarith
    moreover have "of_int s \<le> X + 1 / 2" using low by linarith
    ultimately show ?thesis by (intro floor_unique [symmetric]) simp_all
  qed
  have "score_of m n = Num (of_int s)"
    using score_of_Num [OF assms(1,2)] by (simp add: s_def v_def)
  with near tie show ?thesis unfolding X_def spec_score_def by blast
qed

text \<open>
  At an exact half the product decides: the score is the percentage rounded up when the
  product has not fallen below the percentage, and one less when it has.
\<close>

lemma score_of_exact:
  assumes "0 < n" and "m \<le> n" and "n < 2 ^ 32"
  shows "\<exists>s v. js_times (js_div m n) 100 = Num v
           \<and> score_of m n = Num (of_int s)
           \<and> \<bar>of_int s - 100 * real m / real n\<bar> \<le> 1 / 2
           \<and> (frac (100 * real m / real n) \<noteq> 1 / 2 \<longrightarrow> s = spec_score m n)
           \<and> s = (if frac (100 * real m / real n) = 1 / 2 \<and> v < 100 * real m / real n
                  then spec_score m n - 1 else spec_score m n)"
proof -
  define v where "v = round53 (round53 (real m / real n) * 100)"
  define X where "X = 100 * real m / real n"
  obtain s where s: "score_of m n = Num (of_int s)" "\<bar>of_int s - X\<bar> \<le> 1 / 2"
      "frac X \<noteq> 1 / 2 \<longrightarrow> s = spec_score m n"
    using score_of_nearest [OF assms] unfolding X_def by blast
  have "score_of m n = Num (of_int \<lfloor>v + 1 / 2\<rfloor>)"
    using score_of_Num [OF assms(1,2)] by (simp add: v_def)
  with s(1) have sv: "s = \<lfloor>v + 1 / 2\<rfloor>" by simp
  have tie: "s = (if v < X then spec_score m n - 1 else spec_score m n)" if half: "frac X = 1 / 2"
  proof -
    have X: "X = of_int \<lfloor>X\<rfloor> + 1 / 2" using half by (simp add: frac_def)
    then have "X + 1 / 2 = of_int (\<lfloor>X\<rfloor> + 1)" by simp
    then have "\<lfloor>X + 1 / 2\<rfloor> = \<lfloor>X\<rfloor> + 1" by (metis floor_of_int)
    then have spec: "spec_score m n = \<lfloor>X\<rfloor> + 1" by (simp add: spec_score_def X_def)
    have lo: "\<lfloor>X\<rfloor> \<le> s" and hi: "s \<le> \<lfloor>X\<rfloor> + 1" using s(2) X by linarith+
    show ?thesis
    proof (cases "v < X")
      case True
      then have "v + 1 / 2 < of_int (\<lfloor>X\<rfloor> + 1)" using X by simp
      then have "\<lfloor>v + 1 / 2\<rfloor> < \<lfloor>X\<rfloor> + 1" by (simp only: floor_less_iff)
      with sv lo True spec show ?thesis by simp
    next
      case False
      then have "of_int (\<lfloor>X\<rfloor> + 1) \<le> v + 1 / 2" using X by simp
      then have "\<lfloor>X\<rfloor> + 1 \<le> \<lfloor>v + 1 / 2\<rfloor>" by (simp only: le_floor_iff)
      with sv hi False spec show ?thesis by simp
    qed
  qed
  have "s = (if frac X = 1 / 2 \<and> v < X then spec_score m n - 1 else spec_score m n)"
    using s(3) tie by (cases "frac X = 1 / 2") simp_all
  moreover have "js_times (js_div m n) 100 = Num v"
    using product_Num [OF assms(1,2)] by (simp add: v_def)
  ultimately show ?thesis using s unfolding X_def by blast
qed

section \<open>Concrete scores\<close>

lemma round53_1: "round53 1 = 1"
  by (simp add: round53_def expo_def bitlen.simps pow2_def rne_def Let_def)

lemma round53_100: "round53 100 = 100"
  by (simp add: round53_def expo_def bitlen.simps pow2_def rne_def Let_def)

lemma score_of_all: assumes "0 < n" shows "score_of n n = Num 100"
proof -
  have "real n / real n = 1" using assms by simp
  then show ?thesis using score_of_Num [OF assms order_refl]
    by (simp add: round53_1 round53_100)
qed

lemma score_of_none: assumes "0 < n" shows "score_of 0 n = Num 0"
  using score_of_Num [OF assms, of 0] by (simp add: round53_def)

lemma score_of_2_3: "score_of 2 3 = Num 67"
proof -
  have "\<lfloor>round53 (round53 (2 / 3) * 100) + 1 / 2\<rfloor> = 67"
    by (simp add: round53_def expo_def bitlen.simps pow2_def rne_def Let_def)
  then show ?thesis using score_of_Num [of 3 2] by simp
qed

lemma score_of_23_40: "score_of 23 40 = Num 57"
proof -
  have "\<lfloor>round53 (round53 (23 / 40) * 100) + 1 / 2\<rfloor> = 57"
    by (simp add: round53_def expo_def bitlen.simps pow2_def rne_def Let_def)
  then show ?thesis using score_of_Num [of 40 23] by simp
qed

lemma score_of_1_8: "score_of 1 8 = Num 13"
proof -
  have "\<lfloor>round53 (round53 (1 / 8) * 100) + 1 / 2\<rfloor> = 13"
    by (simp add: round53_def expo_def bitlen.simps pow2_def rne_def Let_def)
  then show ?thesis using score_of_Num [of 8 1] by simp
qed

lemma stub_run:
  "calculate_ats U (stub_services t k) sample_request =
     (\<lparr>status = 200, body = Score (ats_score U t k)\<rparr>,
      [PdfParse ''%PDF-1.4'', GenerateContent (keywordsPrompt (js ''Data engineer''))])"
  by (rule calculate_ats_ok) (simp_all add: stub_services_def sample_request_def js_def)

lemma ats_score_counts:
  "ats_score U t k
     = score_of (count_matches (toLowerCase U t) (keywords_of U k)) (length (keywords_of U k))"
  by (simp add: ats_score_def score_keywords_def Let_def)

lemma ats_score_range: "\<exists>s. ats_score U t k = Num (of_int s) \<and> 0 \<le> s \<and> s \<le> 100"
proof -
  have "0 < length (keywords_of U k)" using keywords_of_not_Nil [of U k] by simp
  then show ?thesis unfolding ats_score_counts
    using count_matches_le by (rule score_of_range)
qed

section \<open>Keyword lists and sample inputs\<close>

lemma split_str_append_sep: "split_str c (a @ c # b) = split_str c a @ split_str c b"
proof (induction a)
  case Nil
  show ?case by simp
next
  case (Cons x a)
  have "split_str c a \<noteq> []" by (rule split_str_not_Nil)
  with Cons show ?case by (auto split: list.splits)
qed

lemma keywords_of_append_sep:
  "keywords_of U (a @ js '','' @ b) = keywords_of U a @ keywords_of U b"
  by (simp add: keywords_of_def split_str_append_sep js_def)

lemma keywords_of_Nil: "keywords_of U [] = [[]]"
  by (simp add: keywords_of_def trim_def toLowerCase_def)

lemma keywords_of_sep: "keywords_of U (js '','' @ b) = [] # keywords_of U b"
  by (simp add: keywords_of_def trim_def toLowerCase_def js_def)

lemma count_matches_append:
  "count_matches t (ks @ ks') = count_matches t ks + count_matches t ks'"
  by (simp add: count_matches_filter)

lemma ats_score_all:
  assumes "\<forall>k \<in> set (keywords_of U k0). includes_str (toLowerCase U t) k"
  shows "ats_score U t k0 = Num 100"
proof -
  have "filter (includes_str (toLowerCase U t)) (keywords_of U k0) = keywords_of U k0"
    using assms by (simp add: filter_id_conv)
  moreover have "0 < length (keywords_of U k0)" using keywords_of_not_Nil [of U k0] by simp
  ultimately show ?thesis by (simp add: ats_score_counts count_matches_filter score_of_all)
qed

lemma ats_score_none:
  assumes "\<forall>k \<in> set (keywords_of U k0). \<not> includes_str (toLowerCase U t) k"
  shows "ats_score U t k0 = Num 0"
proof -
  have "filter (includes_str (toLowerCase U t)) (keywords_of U k0) = []"
    using assms by (simp add: filter_empty_conv)
  moreover have "0 < length (keywords_of U k0)" using keywords_of_not_Nil [of U k0] by simp
  ultimately show ?thesis by (simp add: ats_score_counts count_matches_filter score_of_none)
qed

lemma sample_keywords:
  "keywords_of U (js ''python, sql'') = [js ''python'', js ''sql'']"
  "keywords_of U (js ''leadership'') = [js ''leadership'']"
  "keywords_of U (js ''python,sql,communication'')
     = [js ''python'', js ''sql'', js ''communication'']"
  "keywords_of U (js ''python'') = [js ''python'']"
  "keywords_of U (js ''Python'') = [js ''python'']"
  "keywords_of U (js '' PYTHON '') = [js ''python'']"
  "keywords_of U (js ''script'') = [js ''script'']"
  "keywords_of U (js ''tpsrt'') = [js ''tpsrt'']"
  by (simp_all add: keywords_of_def trim_def is_white_space_def toLowerCase_ascii
        ascii_lower_def js_def)

lemma sample_text:
  "toLowerCase U (js ''Python and SQL'') = js ''python and sql''"
  "toLowerCase U (js ''typescript'') = js ''typescript''"
  "toLowerCase U (js ''a'') = js ''a''"
  by (simp_all add: toLowerCase_ascii ascii_lower_def js_def)

lemma sample_matches:
  "includes_str (js ''python and sql'') (js ''python'')"
  "includes_str (js ''python and sql'') (js ''sql'')"
  "\<not> includes_str (js ''python and sql'') (js ''communication'')"
  "\<not> includes_str (js ''python and sql'') (js ''leadership'')"
  "\<not> includes_str (js ''typescript'') (js ''tpsrt'')"
  "\<not> includes_str (js ''typescript'') (js ''java'')"
  by (simp_all add: js_def)

lemma forty_keywords:
  "length (keywords_of U (js ''a,a,a,a,a,a,a,a,a,a,a,a,a,a,a,a,a,a,a,a,a,a,a,b,b,b,b,b,b,b,b,b,b,b,b,b,b,b,b,b'')) = 40"
  "length (filter (includes_str (js ''a''))
      (keywords_of U (js ''a,a,a,a,a,a,a,a,a,a,a,a,a,a,a,a,a,a,a,a,a,a,a,b,b,b,b,b,b,b,b,b,b,b,b,b,b,b,b,b''))) = 23"
  by (simp_all add: keywords_of_def trim_def is_white_space_def toLowerCase_ascii ascii_lower_def
        js_def)

lemma sample_jd: "js ''Data engineer'' \<noteq> []"
  by (simp add: js_def)

lemma spec_score_23_40: "spec_score 23 40 = 58"
  by (simp add: spec_score_def)

lemma ats_score_single:
  assumes "keywords_of U k = [kw]" and "includes_str (toLowerCase U t) kw"
  shows "ats_score U t k = Num 100"
  using assms by (simp add: ats_score_counts count_matches_filter score_of_all)

section \<open>The claims\<close>

text \<open>
  C1, as the code has it: for a request that is served and a keyword list of fewer than
  \<open>2\<^sup>3\<^sup>2\<close> elements, which is every JavaScript array, the score is an integer nearest to
  \<^verbatim>\<open>100 * matchCount / len(KeywordList)\<close>, where \<^verbatim>\<open>matchCount\<close> is the number of
  keywords that occur in the lower-cased resume text. Unless that percentage lies exactly
  halfway between two integers, the score is the percentage rounded, which is the formula
  of the specification. At an exact half the score is the percentage rounded up, as that
  formula has it with \<^verbatim>\<open>Math.round\<close>, unless the binary64 product
  \<^verbatim>\<open>(matchCount / len) * 100\<close> has fallen below the percentage: then it is one less.
\<close>

theorem C1_score_nearest_integer:
  assumes "resume_file req = Some buf" and "jobDescription req = Some jd" and "jd \<noteq> []"
    and "pdf sv buf = Inr resumeText"
    and "generateContent sv (keywordsPrompt jd) = Inr keywordsText"
    and "length (keywords_of U keywordsText) < 2 ^ 32"
  shows "let keywords = keywords_of U keywordsText;
             matchCount =
               length (filter (\<lambda>k. \<exists>p r. toLowerCase U resumeText = p @ k @ r) keywords);
             percent = 100 * real matchCount / real (length keywords)
         in \<exists>s v. js_times (js_div matchCount (length keywords)) 100 = Num v
              \<and> fst (calculate_ats U sv req) = \<lparr>status = 200, body = Score (Num (of_int s))\<rparr>
              \<and> \<bar>of_int s - percent\<bar> \<le> 1 / 2
              \<and> (frac percent \<noteq> 1 / 2 \<longrightarrow> s = spec_score matchCount (length keywords))
              \<and> s = (if frac percent = 1 / 2 \<and> v < percent
                     then spec_score matchCount (length keywords) - 1
                     else spec_score matchCount (length keywords))"
proof -
  define kws where "kws = keywords_of U keywordsText"
  define matchCount where "matchCount = count_matches (toLowerCase U resumeText) kws"
  have mc: "length (filter (\<lambda>k. \<exists>p r. toLowerCase U resumeText = p @ k @ r) kws) = matchCount"
  proof -
    have "(\<lambda>k. \<exists>p r. toLowerCase U resumeText = p @ k @ r) = includes_str (toLowerCase U resumeText)"
      by (rule ext) (simp only: includes_iff)
    then show ?thesis by (simp only: matchCount_def count_matches_filter)
  qed
  have "0 < length kws" using keywords_of_not_Nil [of U keywordsText] by (simp add: kws_def)
  moreover have "matchCount \<le> length kws" unfolding matchCount_def by (rule count_matches_le)
  moreover have "length kws < 2 ^ 32" using assms(6) by (simp add: kws_def)
  ultimately obtain s v where s: "js_times (js_div matchCount (length kws)) 100 = Num v"
      "score_of matchCount (length kws) = Num (of_int s)"
      "\<bar>of_int s - 100 * real matchCount / real (length kws)\<bar> \<le> 1 / 2"
      "frac (100 * real matchCount / real (length kws)) \<noteq> 1 / 2
         \<longrightarrow> s = spec_score matchCount (length kws)"
      "s = (if frac (100 * real matchCount / real (length kws)) = 1 / 2
              \<and> v < 100 * real matchCount / real (length kws)
            then spec_score matchCount (length kws) - 1
            else spec_score matchCount (length kws))"
    using score_of_exact [of "length kws" matchCount] by blast
  have "ats_score U resumeText keywordsText = Num (of_int s)"
    using s(2) by (simp add: ats_score_counts matchCount_def kws_def)
  then have "fst (calculate_ats U sv req) = \<lparr>status = 200, body = Score (Num (of_int s))\<rparr>"
    using calculate_ats_ok [OF assms(1-5)] by simp
  with s(1,3,4,5) show ?thesis unfolding Let_def kws_def [symmetric] mc by blast
qed

theorem C1_score_nearest_integer_witness:
  "length (keywords_of plain_casing (js ''python,sql,communication'')) < 2 ^ 32
   \<and> frac (100 * real (length (filter
                (\<lambda>k. \<exists>p r. toLowerCase plain_casing (js ''Python and SQL'') = p @ k @ r)
                (keywords_of plain_casing (js ''python,sql,communication''))))
             / real (length (keywords_of plain_casing (js ''python,sql,communication'')))) \<noteq> 1 / 2
   \<and> fst (calculate_ats plain_casing
            (stub_services (js ''Python and SQL'') (js ''python,sql,communication''))
            sample_request) = \<lparr>status = 200, body = Score (Num 67)\<rparr>"
proof -
  have mc: "length (filter
                (\<lambda>k. \<exists>p r. toLowerCase plain_casing (js ''Python and SQL'') = p @ k @ r)
                (keywords_of plain_casing (js ''python,sql,communication''))) = 2"
    by (simp add: sample_keywords sample_text includes_iff [symmetric] sample_matches)
  have len: "length (keywords_of plain_casing (js ''python,sql,communication'')) = 3"
    by (simp add: sample_keywords)
  have small: "length (keywords_of plain_casing (js ''python,sql,communication'')) < 2 ^ 32"
    by (simp add: len)
  have fr: "frac (100 * real 2 / real 3) \<noteq> 1 / 2" by (simp add: frac_def)
  have spec: "spec_score 2 3 = 67" by (simp add: spec_score_def)
  have "\<exists>s v. js_times (js_div 2 3) 100 = Num v
            \<and> fst (calculate_ats plain_casing
                     (stub_services (js ''Python and SQL'') (js ''python,sql,communication''))
                     sample_request) = \<lparr>status = 200, body = Score (Num (of_int s))\<rparr>
            \<and> \<bar>of_int s - 100 * real 2 / real 3\<bar> \<le> 1 / 2
            \<and> (frac (100 * real 2 / real 3) \<noteq> 1 / 2 \<longrightarrow> s = spec_score 2 3)
            \<and> s = (if frac (100 * real 2 / real 3) = 1 / 2 \<and> v < 100 * real 2 / real 3
                   then spec_score 2 3 - 1 else spec_score 2 3)"
    using C1_score_nearest_integer
            [of sample_request "''%PDF-1.4''" "js ''Data engineer''"
                "stub_services (js ''Python and SQL'') (js ''python,sql,communication'')"
                "js ''Python and SQL''" "js ''python,sql,communication''" plain_casing,
             unfolded Let_def mc len]
    by (simp add: stub_services_def sample_request_def js_def)
  with fr spec have "fst (calculate_ats plain_casing
                       (stub_services (js ''Python and SQL'') (js ''python,sql,communication''))
                       sample_request) = \<lparr>status = 200, body = Score (Num 67)\<rparr>"
    by auto
  with small fr show ?thesis by (simp only: mc len simp_thms)
qed

text \<open>
  C1, as the specification states it, fails: with 40 keywords of which 23 occur in the
  resume text, the quotient 23 / 40 is rounded below 0.575, its product with 100 is
  below 57.5 and the score is 57, while \<^verbatim>\<open>round(100 * 23 / 40)\<close> is 58.
\<close>

theorem C1_forty_keywords_counterexample:
  "fst (calculate_ats plain_casing
          (stub_services (js ''a'')
             (js ''a,a,a,a,a,a,a,a,a,a,a,a,a,a,a,a,a,a,a,a,a,a,a,b,b,b,b,b,b,b,b,b,b,b,b,b,b,b,b,b''))
          sample_request) = \<lparr>status = 200, body = Score (Num 57)\<rparr>
   \<and> spec_score
        (length (filter (includes_str (toLowerCase plain_casing (js ''a'')))
           (keywords_of plain_casing
              (js ''a,a,a,a,a,a,a,a,a,a,a,a,a,a,a,a,a,a,a,a,a,a,a,b,b,b,b,b,b,b,b,b,b,b,b,b,b,b,b,b''))))
        (length (keywords_of plain_casing
           (js ''a,a,a,a,a,a,a,a,a,a,a,a,a,a,a,a,a,a,a,a,a,a,a,b,b,b,b,b,b,b,b,b,b,b,b,b,b,b,b,b'')))
       = 58"
  by (simp add: stub_run ats_score_counts count_matches_filter forty_keywords sample_text
        score_of_23_40 spec_score_23_40)

text \<open>
  C2, as the code has it: the division of the scoring step has no guard, and on an empty
  keyword list it would be 0 / 0, which is \<^verbatim>\<open>NaN\<close>; but no response of the generation
  service gives an empty keyword list, so the operation never divides by zero and its
  score is never \<^verbatim>\<open>NaN\<close>.
\<close>

theorem C2_division_unguarded_and_unreachable:
  "js_div 0 0 = NaN
   \<and> score_keywords U resumeText [] = NaN
   \<and> length (keywords_of U keywordsText) \<noteq> 0
   \<and> ats_score U resumeText keywordsText \<noteq> NaN"
proof -
  have "ats_score U resumeText keywordsText \<noteq> NaN"
    using ats_score_range [of U resumeText keywordsText] by auto
  then show ?thesis
    by (simp add: js_div_def score_keywords_def score_of_def count_matches_def
          keywords_of_not_Nil)
qed

text \<open>
  C2, as the specification states it, fails: for the empty response, which has no usable
  keyword, the keyword list has one element, the quotient is 1 / 1 and the score is 100.
\<close>

theorem C2_empty_response_counterexample:
  "keywords_of plain_casing [] = [[]]
   \<and> js_div (count_matches (toLowerCase plain_casing (js ''Python and SQL''))
               (keywords_of plain_casing []))
        (length (keywords_of plain_casing [])) = Num 1
   \<and> fst (calculate_ats plain_casing (stub_services (js ''Python and SQL'') []) sample_request)
       = \<lparr>status = 200, body = Score (Num 100)\<rparr>"
proof -
  have "ats_score plain_casing (js ''Python and SQL'') [] = Num 100"
    by (rule ats_score_all) (simp add: keywords_of_Nil includes_empty)
  moreover have "js_div 1 1 = Num 1"
    using finite_range [of 1] by (simp add: js_div_def to_double_def round53_1)
  ultimately show ?thesis
    by (simp add: keywords_of_Nil count_matches_filter includes_empty stub_run)
qed

text \<open>
  C3: when the resume document or the job description is missing from the request, the
  operation answers with status 400 and the message that the resume file and the job
  description are required, and calls neither the extractor nor the generation service.
\<close>

theorem C3_missing_input_rejected:
  assumes "resume_file req = None \<or> jobDescription req = None"
  shows "calculate_ats U sv req =
           (\<lparr>status = 400, body = Message ''Resume file and job description are required.''\<rparr>, [])"
  using assms by (auto simp add: calculate_ats_def bad_request_def split: option.splits)

theorem C3_missing_input_rejected_witness:
  "calculate_ats plain_casing (stub_services (js ''Python'') (js ''python''))
       \<lparr>resume_file = None, jobDescription = Some (js ''Data engineer'')\<rparr> =
     (\<lparr>status = 400, body = Message ''Resume file and job description are required.''\<rparr>, [])
   \<and> calculate_ats plain_casing (stub_services (js ''Python'') (js ''python''))
       \<lparr>resume_file = Some ''%PDF-1.4'', jobDescription = None\<rparr> =
     (\<lparr>status = 400, body = Message ''Resume file and job description are required.''\<rparr>, [])"
  using C3_missing_input_rejected
          [of "\<lparr>resume_file = None, jobDescription = Some (js ''Data engineer'')\<rparr>"
              plain_casing "stub_services (js ''Python'') (js ''python'')"]
        C3_missing_input_rejected
          [of "\<lparr>resume_file = Some ''%PDF-1.4'', jobDescription = None\<rparr>"
              plain_casing "stub_services (js ''Python'') (js ''python'')"]
  by simp

text \<open>
  C4: for every request with both inputs, a document the extractor turns into a text and
  a response of the generation service, the operation answers with status 200 and a
  score that is an integer from 0 to 100.
\<close>

theorem C4_score_in_range:
  assumes "resume_file req = Some buf" and "jobDescription req = Some jd" and "jd \<noteq> []"
    and "pdf sv buf = Inr resumeText"
    and "generateContent sv (keywordsPrompt jd) = Inr keywordsText"
  shows "\<exists>s. fst (calculate_ats U sv req) = \<lparr>status = 200, body = Score (Num (of_int s))\<rparr>
           \<and> 0 \<le> s \<and> s \<le> 100"
proof -
  obtain s where "ats_score U resumeText keywordsText = Num (of_int s)" "0 \<le> s" "s \<le> 100"
    using ats_score_range by blast
  then show ?thesis using calculate_ats_ok [OF assms] by simp
qed

theorem C4_score_in_range_witness:
  "resume_file sample_request = Some ''%PDF-1.4''
   \<and> jobDescription sample_request = Some (js ''Data engineer'')
   \<and> pdf (stub_services (js ''Python and SQL'') (js ''python, sql, communication'')) ''%PDF-1.4''
       = Inr (js ''Python and SQL'')
   \<and> generateContent (stub_services (js ''Python and SQL'') (js ''python, sql, communication''))
         (keywordsPrompt (js ''Data engineer'')) = Inr (js ''python, sql, communication'')
   \<and> (\<exists>s. fst (calculate_ats plain_casing
                  (stub_services (js ''Python and SQL'') (js ''python, sql, communication''))
                  sample_request)
             = \<lparr>status = 200, body = Score (Num (of_int s))\<rparr> \<and> 0 \<le> s \<and> s \<le> 100)"
  using C4_score_in_range
          [of sample_request "''%PDF-1.4''" "js ''Data engineer''"
              "stub_services (js ''Python and SQL'') (js ''python, sql, communication'')"
              "js ''Python and SQL''" "js ''python, sql, communication''" plain_casing]
  by (simp add: stub_services_def sample_request_def js_def)

text \<open>
  C5: for a request that is served, the score is 100 when every keyword of the list
  occurs in the lower-cased resume text, and 0 when none does. The list is never empty.
\<close>

theorem C5_all_or_none:
  assumes "resume_file req = Some buf" and "jobDescription req = Some jd" and "jd \<noteq> []"
    and "pdf sv buf = Inr resumeText"
    and "generateContent sv (keywordsPrompt jd) = Inr keywordsText"
  shows "((\<forall>k \<in> set (keywords_of U keywordsText). includes_str (toLowerCase U resumeText) k)
            \<longrightarrow> fst (calculate_ats U sv req) = \<lparr>status = 200, body = Score (Num 100)\<rparr>)
         \<and> ((\<forall>k \<in> set (keywords_of U keywordsText). \<not> includes_str (toLowerCase U resumeText) k)
            \<longrightarrow> fst (calculate_ats U sv req) = \<lparr>status = 200, body = Score (Num 0)\<rparr>)"
  using calculate_ats_ok [OF assms] ats_score_all [of U keywordsText resumeText]
    ats_score_none [of U keywordsText resumeText]
  by simp

theorem C5_all_or_none_witness:
  "keywords_of plain_casing (js ''python, sql'') = [js ''python'', js ''sql'']
   \<and> includes_str (toLowerCase plain_casing (js ''Python and SQL'')) (js ''python'')
   \<and> includes_str (toLowerCase plain_casing (js ''Python and SQL'')) (js ''sql'')
   \<and> fst (calculate_ats plain_casing
            (stub_services (js ''Python and SQL'') (js ''python, sql'')) sample_request)
       = \<lparr>status = 200, body = Score (Num 100)\<rparr>
   \<and> keywords_of plain_casing (js ''leadership'') = [js ''leadership'']
   \<and> \<not> includes_str (toLowerCase plain_casing (js ''Python and SQL'')) (js ''leadership'')
   \<and> fst (calculate_ats plain_casing
            (stub_services (js ''Python and SQL'') (js ''leadership'')) sample_request)
       = \<lparr>status = 200, body = Score (Num 0)\<rparr>"
  using C5_all_or_none
          [of sample_request "''%PDF-1.4''" "js ''Data engineer''"
              "stub_services (js ''Python and SQL'') (js ''python, sql'')"
              "js ''Python and SQL''" "js ''python, sql''" plain_casing]
        C5_all_or_none
          [of sample_request "''%PDF-1.4''" "js ''Data engineer''"
              "stub_services (js ''Python and SQL'') (js ''leadership'')"
              "js ''Python and SQL''" "js ''leadership''" plain_casing]
  by (simp add: stub_services_def sample_request_def sample_keywords sample_text sample_matches
        sample_jd)



text \<open>
  C7: matching is containment of the keyword as a string, not of a whole word, and
  nothing else. Whatever surrounds it, a resume text that contains \<^verbatim>\<open>typescript\<close>
  matches the keyword \<^verbatim>\<open>script\<close>, and the score for that single keyword is 100. A keyword
  matches a text exactly when the text is some string, the keyword, and some string:
  the characters \<^verbatim>\<open>tpsrt\<close>, which all occur in \<^verbatim>\<open>typescript\<close> in this order but not in a
  row, do not match it, and score 0.
\<close>

theorem C7_literal_substring:
  "includes_str (toLowerCase U (p @ js ''typescript'' @ r)) (js ''script'')
   \<and> ats_score U (p @ js ''typescript'' @ r) (js ''script'') = Num 100
   \<and> includes_str (a @ k @ b) k
   \<and> includes_str s k = (\<exists>p r. s = p @ k @ r)
   \<and> \<not> includes_str (toLowerCase U (js ''typescript'')) (js ''tpsrt'')
   \<and> \<not> includes_str (toLowerCase U (js ''typescript'')) (js ''java'')
   \<and> ats_score U (js ''typescript'') (js ''tpsrt'') = Num 0"
proof -
  have ascii: "list_all (\<lambda>c. c < 128) (js ''script'')" by (simp add: js_def)
  have low: "map ascii_lower (js ''script'') = js ''script''"
    by (simp add: ascii_lower_def js_def)
  have "p @ js ''typescript'' @ r = (p @ js ''type'') @ js ''script'' @ r"
    by (simp add: js_def)
  then have inc: "includes_str (toLowerCase U (p @ js ''typescript'' @ r)) (js ''script'')"
    using toLowerCase_includes_ascii [OF ascii, of U "p @ js ''type''" r] by (simp only: low)
  have no: "\<not> includes_str (toLowerCase U (js ''typescript'')) (js ''tpsrt'')"
    "\<not> includes_str (toLowerCase U (js ''typescript'')) (js ''java'')"
    by (simp_all only: sample_text sample_matches not_False_eq_True)
  have zero: "ats_score U (js ''typescript'') (js ''tpsrt'') = Num 0"
    by (rule ats_score_none) (simp add: sample_keywords no)
  show ?thesis
    using inc ats_score_single [OF sample_keywords(7) inc] includes_middle [of a k b]
      includes_iff [of s k] no zero
    by blast
qed

text \<open>
  C8: the match count is the number of positions of the keyword list whose keyword
  occurs in the text, so it is at most the length of the list; a keyword that occurs
  twice in the text counts once, and a keyword that is twice in the list counts twice.
\<close>

theorem C8_presence_count:
  "count_matches t ks = length (filter (\<lambda>k. \<exists>p r. t = p @ k @ r) ks)
   \<and> count_matches t ks \<le> length ks
   \<and> count_matches (p @ k @ q @ k @ r) [k] = 1
   \<and> count_matches (p @ k @ r) [k, k] = 2"
proof -
  have "includes_str (p @ k @ q @ k @ r) k" using includes_middle [of p k "q @ k @ r"] by simp
  then show ?thesis
    by (simp add: count_matches_filter includes_middle includes_iff [symmetric])
qed

text \<open>
  C9: for a request that is served, when the keyword list is \<^verbatim>\<open>python\<close>, \<^verbatim>\<open>sql\<close>,
  \<^verbatim>\<open>communication\<close> and the lower-cased resume text contains the first two and not the
  third, the score is 67; when the list is the single keyword \<^verbatim>\<open>leadership\<close> and the
  text does not contain it, the score is 0.
\<close>

theorem C9_scenarios:
  assumes "resume_file req = Some buf" and "jobDescription req = Some jd" and "jd \<noteq> []"
    and "pdf sv buf = Inr resumeText"
    and "generateContent sv (keywordsPrompt jd) = Inr keywordsText"
  shows "(keywords_of U keywordsText = [js ''python'', js ''sql'', js ''communication'']
            \<and> includes_str (toLowerCase U resumeText) (js ''python'')
            \<and> includes_str (toLowerCase U resumeText) (js ''sql'')
            \<and> \<not> includes_str (toLowerCase U resumeText) (js ''communication'')
            \<longrightarrow> fst (calculate_ats U sv req) = \<lparr>status = 200, body = Score (Num 67)\<rparr>)
         \<and> (keywords_of U keywordsText = [js ''leadership'']
            \<and> \<not> includes_str (toLowerCase U resumeText) (js ''leadership'')
            \<longrightarrow> fst (calculate_ats U sv req) = \<lparr>status = 200, body = Score (Num 0)\<rparr>)"
proof -
  have a: "ats_score U resumeText keywordsText = Num 67"
    if "keywords_of U keywordsText = [js ''python'', js ''sql'', js ''communication'']"
      and "includes_str (toLowerCase U resumeText) (js ''python'')"
      and "includes_str (toLowerCase U resumeText) (js ''sql'')"
      and "\<not> includes_str (toLowerCase U resumeText) (js ''communication'')"
  proof -
    have "count_matches (toLowerCase U resumeText) (keywords_of U keywordsText) = 2"
      using that by (simp add: count_matches_filter)
    moreover have "length (keywords_of U keywordsText) = 3" using that by simp
    ultimately show ?thesis by (simp only: ats_score_counts score_of_2_3)
  qed
  have b: "ats_score U resumeText keywordsText = Num 0"
    if "keywords_of U keywordsText = [js ''leadership'']"
      and "\<not> includes_str (toLowerCase U resumeText) (js ''leadership'')"
    using that score_of_none [of 1] by (simp add: ats_score_counts count_matches_filter)
  show ?thesis using calculate_ats_ok [OF assms] a b by simp
qed

theorem C9_scenarios_witness:
  "keywords_of plain_casing (js ''python,sql,communication'')
     = [js ''python'', js ''sql'', js ''communication'']
   \<and> includes_str (toLowerCase plain_casing (js ''Python and SQL'')) (js ''python'')
   \<and> includes_str (toLowerCase plain_casing (js ''Python and SQL'')) (js ''sql'')
   \<and> \<not> includes_str (toLowerCase plain_casing (js ''Python and SQL'')) (js ''communication'')
   \<and> fst (calculate_ats plain_casing
            (stub_services (js ''Python and SQL'') (js ''python,sql,communication''))
            sample_request) = \<lparr>status = 200, body = Score (Num 67)\<rparr>
   \<and> keywords_of plain_casing (js ''leadership'') = [js ''leadership'']
   \<and> \<not> includes_str (toLowerCase plain_casing (js ''Python and SQL'')) (js ''leadership'')
   \<and> fst (calculate_ats plain_casing
            (stub_services (js ''Python and SQL'') (js ''leadership'')) sample_request)
       = \<lparr>status = 200, body = Score (Num 0)\<rparr>"
  using C9_scenarios
          [of sample_request "''%PDF-1.4''" "js ''Data engineer''"
              "stub_services (js ''Python and SQL'') (js ''python,sql,communication'')"
              "js ''Python and SQL''" "js ''python,sql,communication''" plain_casing]
        C9_scenarios
          [of sample_request "''%PDF-1.4''" "js ''Data engineer''"
              "stub_services (js ''Python and SQL'') (js ''leadership'')"
              "js ''Python and SQL''" "js ''leadership''" plain_casing]
  by (simp add: stub_services_def sample_request_def sample_keywords sample_text sample_matches
        sample_jd)

text \<open>
  C10: splitting on commas gives one element more than there are commas, so the keyword
  list is never empty and the score is never the result of a division by zero. For the
  empty response the list is the empty keyword alone, the empty keyword occurs in every
  text, and the score is 100. A comma at the end or two commas in a row add an empty
  keyword, and an empty keyword always counts as a match.
\<close>

theorem C10_keyword_list_never_empty:
  "keywords_of U keywordsText \<noteq> []
   \<and> length (keywords_of U keywordsText)
       = Suc (length (filter (\<lambda>c. c = of_char (CHR '','')) keywordsText))
   \<and> ats_score U resumeText keywordsText \<noteq> NaN
   \<and> keywords_of U [] = [[]]
   \<and> includes_str (toLowerCase U resumeText) []
   \<and> fst (calculate_ats U (stub_services resumeText []) sample_request)
       = \<lparr>status = 200, body = Score (Num 100)\<rparr>
   \<and> keywords_of U (a @ js '','') = keywords_of U a @ [[]]
   \<and> keywords_of U (a @ js '',,'' @ b) = keywords_of U a @ [[]] @ keywords_of U b
   \<and> count_matches t (ks @ [[]] @ ks') = count_matches t ks + 1 + count_matches t ks'"
proof -
  have "ats_score U resumeText keywordsText \<noteq> NaN"
    using ats_score_range [of U resumeText keywordsText] by auto
  moreover have "ats_score U resumeText [] = Num 100"
    by (rule ats_score_all) (simp add: keywords_of_Nil includes_empty)
  moreover have "keywords_of U (a @ js '','') = keywords_of U a @ [[]]"
    using keywords_of_append_sep [of U a "[]"] by (simp add: keywords_of_Nil)
  moreover have "keywords_of U (a @ js '',,'' @ b) = keywords_of U a @ [[]] @ keywords_of U b"
  proof -
    have "js '',,'' @ b = js '','' @ js '','' @ b" by (simp add: js_def)
    then show ?thesis
      using keywords_of_append_sep [of U a "js '','' @ b"] by (simp add: keywords_of_sep)
  qed
  moreover have "count_matches t (ks @ [[]] @ ks') = count_matches t ks + 1 + count_matches t ks'"
    by (simp add: count_matches_filter includes_empty)
  moreover have "length (keywords_of U keywordsText)
                   = Suc (length (filter (\<lambda>c. c = of_char (CHR '','')) keywordsText))"
    by (simp add: keywords_of_def length_split_str)
  ultimately show ?thesis
    by (simp add: keywords_of_not_Nil keywords_of_Nil includes_empty stub_run)
qed

end
